theory Spec2Isabelle
  imports Complex_Main
begin

section \<open>Byte-to-line transport (serialAdapter.ts)\<close>

text \<open>
  JavaScript strings are modelled as \<open>string\<close>; the two code units the splitter looks
  at are line feed and carriage return.
\<close>

definition LF :: char where
  "LF = CHR 0x0A"

definition CR :: char where
  "CR = CHR 0x0D"

text \<open>
  \<open>s.split(/\r?\n/)\<close>: the pieces of \<open>s\<close> between the matches of the pattern, scanned from
  the left. At a carriage return directly followed by a line feed the match takes both
  code units, at a line feed it takes one, anywhere else there is no match. The result
  always has at least one piece (the empty string splits into one empty piece).
\<close>

fun split_lines :: "string \<Rightarrow> string list" where
  "split_lines [] = [[]]"
| "split_lines (c # cs) =
     (if c = CR \<and> cs \<noteq> [] \<and> hd cs = LF then [] # split_lines (tl cs)
      else if c = LF then [] # split_lines cs
      else (case split_lines cs of
              [] \<Rightarrow> [[c]]
            | piece # pieces \<Rightarrow> (c # piece) # pieces))"

record LineBreakTransformer =
  carry :: string

text \<open>
  \<open>transform(chunk, controller)\<close>: returns the transformer with its new carry and the
  lines handed to \<open>controller.enqueue\<close>, in order. \<open>lines.pop() ?? ""\<close> is the last piece,
  or the empty string when there is none.
\<close>

definition transform :: "LineBreakTransformer \<Rightarrow> string \<Rightarrow> LineBreakTransformer \<times> string list" where
  "transform t chunk =
     (let carry1 = carry t @ chunk;
          lines = split_lines carry1;
          carry2 = (if lines = [] then [] else last lines);
          lines1 = butlast lines
      in (t\<lparr>carry := carry2\<rparr>, filter (\<lambda>line. length line \<noteq> 0) lines1))"

text \<open>\<open>flush(controller)\<close>: enqueues nothing and empties the carry.\<close>

definition flush :: "LineBreakTransformer \<Rightarrow> LineBreakTransformer \<times> string list" where
  "flush t = (t\<lparr>carry := []\<rparr>, [])"

text \<open>
  The transform stream applied to the chunks the decoder delivers, one call of
  \<open>transform\<close> per chunk, in arrival order.
\<close>

fun pump :: "LineBreakTransformer \<Rightarrow> string list \<Rightarrow> LineBreakTransformer \<times> string list" where
  "pump t [] = (t, [])"
| "pump t (chunk # chunks) =
     (let (t1, out1) = transform t chunk;
          (t2, out2) = pump t1 chunks
      in (t2, out1 @ out2))"

text \<open>
  Everything the line reader delivers for a stream that carries \<open>chunks\<close> and then ends:
  the output of the transforms followed by the output of the flush, starting from a new
  transformer (\<open>carry = ""\<close>).
\<close>

definition line_stream :: "string list \<Rightarrow> string list" where
  "line_stream chunks =
     (let (t1, out1) = pump \<lparr>carry = []\<rparr> chunks;
          (t2, out2) = flush t1
      in out1 @ out2)"

text \<open>\<open>writeLine\<close>: the text handed to the writer.\<close>

definition endsWith :: "string \<Rightarrow> string \<Rightarrow> bool" where
  "endsWith s p = (length p \<le> length s \<and> drop (length s - length p) s = p)"

definition startsWith :: "string \<Rightarrow> string \<Rightarrow> bool" where
  "startsWith s p = (take (length p) s = p)"

definition writeLine :: "string \<Rightarrow> string" where
  "writeLine line = (if endsWith line [LF] then line else line @ [LF])"

subsection \<open>The framing the wire protocol describes\<close>

text \<open>
  A complete line of the byte stream is its content and its terminator. The content holds
  no line feed, and a line ended by a bare line feed does not end in a carriage return
  (that carriage return would belong to the terminator). A stream holds complete lines and
  then a fragment without a line feed.
\<close>

datatype terminator = NL | CRNL

fun terminator_text :: "terminator \<Rightarrow> string" where
  "terminator_text NL = [LF]"
| "terminator_text CRNL = [CR, LF]"

fun line_text :: "string \<times> terminator \<Rightarrow> string" where
  "line_text (content, t) = content @ terminator_text t"

fun complete_line :: "string \<times> terminator \<Rightarrow> bool" where
  "complete_line (content, t) =
     (LF \<notin> set content \<and> (t = CRNL \<or> content = [] \<or> last content \<noteq> CR))"

definition framed :: "(string \<times> terminator) list \<Rightarrow> string \<Rightarrow> string" where
  "framed ls fragment = concat (map line_text ls) @ fragment"

section \<open>Line parser (monitoring.tsx)\<close>

subsection \<open>Numbers and values of the host language\<close>

text \<open>
  A JavaScript number is not-a-number, an infinity or a finite value. The finite values
  are a subset of the rationals; the functions below only compare numbers, so nothing
  depends on rounding.
\<close>

datatype number = NaN | NegInfinity | Finite rat | PosInfinity

fun isFinite :: "number \<Rightarrow> bool" where
  "isFinite (Finite q) = True"
| "isFinite x = False"

fun Math_min :: "number \<Rightarrow> number \<Rightarrow> number" where
  "Math_min NaN y = NaN"
| "Math_min x NaN = NaN"
| "Math_min NegInfinity y = NegInfinity"
| "Math_min x NegInfinity = NegInfinity"
| "Math_min PosInfinity y = y"
| "Math_min x PosInfinity = x"
| "Math_min (Finite a) (Finite b) = Finite (min a b)"

fun Math_max :: "number \<Rightarrow> number \<Rightarrow> number" where
  "Math_max NaN y = NaN"
| "Math_max x NaN = NaN"
| "Math_max PosInfinity y = PosInfinity"
| "Math_max x PosInfinity = PosInfinity"
| "Math_max NegInfinity y = y"
| "Math_max x NegInfinity = x"
| "Math_max (Finite a) (Finite b) = Finite (max a b)"

definition clamp :: "number \<Rightarrow> number \<Rightarrow> number \<Rightarrow> number" where
  "clamp n mn mx = Math_max mn (Math_min mx n)"

text \<open>What a \<open>throw\<close> carries: an \<open>Error\<close> instance with its message, or some other value.\<close>

datatype thrown = SyntaxError string | TypeError string | OtherError string | NonError

fun message :: "thrown \<Rightarrow> string \<Rightarrow> string" where
  "message (SyntaxError m) fallback = m"
| "message (TypeError m) fallback = m"
| "message (OtherError m) fallback = m"
| "message NonError fallback = fallback"

text \<open>Sequencing of steps that may throw: the first throw ends the computation.\<close>

fun and_then :: "thrown + 'a \<Rightarrow> ('a \<Rightarrow> thrown + 'b) \<Rightarrow> thrown + 'b" where
  "and_then (Inl e) f = Inl e"
| "and_then (Inr a) f = f a"

text \<open>
  The values \<open>JSON.parse\<close> can return, and \<open>undefined\<close>. An object is the list of its own
  properties; a lookup takes the first entry for a name.
\<close>

datatype jsval =
    Undefined
  | Null
  | Boolean bool
  | Num number
  | Str string
  | Arr "jsval list"
  | Obj "(string \<times> jsval) list"

text \<open>
  \<open>obj.name\<close> for the field names the parser reads: reading a property of \<open>null\<close> or
  \<open>undefined\<close> throws a TypeError, an object gives the property's value or \<open>undefined\<close>,
  and no other value has a property of such a name.
\<close>

fun get_prop :: "jsval \<Rightarrow> string \<Rightarrow> thrown + jsval" where
  "get_prop Undefined name = Inl (TypeError ''Cannot read properties of undefined'')"
| "get_prop Null name = Inl (TypeError ''Cannot read properties of null'')"
| "get_prop (Obj ps) name = Inr (case map_of ps name of None \<Rightarrow> Undefined | Some v \<Rightarrow> v)"
| "get_prop v name = Inr Undefined"

text \<open>\<open>obj.first ?? obj.second\<close>: the second property is read only when the first is nullish.\<close>

definition coalesce :: "jsval \<Rightarrow> string \<Rightarrow> string \<Rightarrow> thrown + jsval" where
  "coalesce obj first second =
     and_then (get_prop obj first)
       (\<lambda>a. if a = Undefined \<or> a = Null then get_prop obj second else Inr a)"

text \<open>
  \<open>Number(v)\<close>. On \<open>undefined\<close>, \<open>null\<close>, booleans and numbers the result is fixed by the
  language. On strings, arrays and objects it goes through the conversion of text to a
  number (and, for arrays and objects, through their conversion to a primitive, which can
  throw); that conversion is the parameter \<open>conv\<close>.
\<close>

fun Number :: "(jsval \<Rightarrow> thrown + number) \<Rightarrow> jsval \<Rightarrow> thrown + number" where
  "Number conv Undefined = Inr NaN"
| "Number conv Null = Inr (Finite 0)"
| "Number conv (Boolean b) = Inr (Finite (if b then 1 else 0))"
| "Number conv (Num n) = Inr n"
| "Number conv v = conv v"

subsection \<open>Text helpers\<close>

text \<open>
  \<open>s.trim()\<close> removes white space and line terminators from both ends. Among the code
  units below 256 these are tab, line feed, vertical tab, form feed, carriage return,
  space and the no-break space.
\<close>

definition is_space :: "char \<Rightarrow> bool" where
  "is_space c = (c \<in> {CHR 0x09, CHR 0x0A, CHR 0x0B, CHR 0x0C, CHR 0x0D, CHR 0x20, CHR 0xA0})"

definition trim :: "string \<Rightarrow> string" where
  "trim s = rev (dropWhile is_space (rev (dropWhile is_space s)))"

subsection \<open>parseLine\<close>

record SessionData =
  pulse :: number
  oxygenSaturation :: number
  temperatureC :: number
  systolic :: number
  diastolic :: number

record RealtimeRow = SessionData +
  timestamp :: string

text \<open>
  The body of the \<open>try\<close> block. \<open>JSON_parse\<close> is the host's \<open>JSON.parse\<close> (it throws a
  SyntaxError on text that is not JSON); \<open>ts\<close> is the value \<open>new Date().toISOString()\<close>
  had on entry.
\<close>

definition parseLine_try ::
  "(string \<Rightarrow> thrown + jsval) \<Rightarrow> (jsval \<Rightarrow> thrown + number) \<Rightarrow> string \<Rightarrow> string
     \<Rightarrow> thrown + RealtimeRow option" where
  "parseLine_try JSON_parse conv ts s =
     and_then (JSON_parse s) (\<lambda>obj.
     and_then (and_then (coalesce obj ''pulse'' ''bpm'') (Number conv)) (\<lambda>pulse.
     and_then (and_then (coalesce obj ''spo2'' ''oxygenSaturation'') (Number conv)) (\<lambda>spo2.
     and_then (and_then (coalesce obj ''temp'' ''temperatureC'') (Number conv)) (\<lambda>temp.
     and_then (and_then (coalesce obj ''sys'' ''systolic'') (Number conv)) (\<lambda>sys.
     and_then (and_then (coalesce obj ''dia'' ''diastolic'') (Number conv)) (\<lambda>dia.
       (let ok = list_all isFinite [pulse, spo2, temp, sys, dia]
        in if \<not> ok then Inr None
           else Inr (Some \<lparr>pulse = pulse, oxygenSaturation = spo2, temperatureC = temp,
                           systolic = sys, diastolic = dia, timestamp = ts\<rparr>))))))))"

text \<open>
  \<open>parseLine\<close>: \<open>Inr None\<close> is the returned \<open>null\<close>, \<open>Inr (Some r)\<close> a returned row, and
  \<open>Inl e\<close> would be an exception leaving the function. The \<open>catch\<close> clause turns every
  throw of the \<open>try\<close> block into \<open>null\<close>.
\<close>

definition parseLine ::
  "(string \<Rightarrow> thrown + jsval) \<Rightarrow> (jsval \<Rightarrow> thrown + number) \<Rightarrow> string \<Rightarrow> string
     \<Rightarrow> thrown + RealtimeRow option" where
  "parseLine JSON_parse conv ts line =
     (let s = trim line
      in if s = [] \<or> \<not> startsWith s ''{'' \<or> \<not> endsWith s ''}'' then Inr None
         else (case parseLine_try JSON_parse conv ts s of
                 Inl e \<Rightarrow> Inr None
               | Inr r \<Rightarrow> Inr r))"

section \<open>Monitoring page: state, handlers and the read loop (monitoring.tsx)\<close>

record Session =
  session_id :: string
  endedAt :: "string option"

text \<open>
  The state of \<open>MonitoringPage\<close> that the read loop and the start handler touch: the
  \<open>useState\<close> cells, the two refs, and two logs of effects on the outside (the calls of
  \<open>sessionService.addData\<close> with their arguments, and the text written to the device).
\<close>

record page =
  session :: "Session option"
  selectedPortIdx :: int
  io :: bool
  isMonitoring :: bool
  startedFromDevice :: bool
  err :: "string option"
  realtime :: "RealtimeRow list"
  lastSentRef :: int
  closeLoopRef :: bool
  addData_calls :: "(string \<times> SessionData) list"
  written :: "string list"

text \<open>
  \<open>readLoop\<close> is an arrow function created by a render of the component, and
  \<open>handleConnect\<close> calls it once. For as long as the loop runs it reads \<open>session\<close> and
  \<open>isMonitoring\<close> as the constants of the render that created it (later renders bind
  new constants, which this closure never sees); the setters and the two refs reach the
  live state. \<open>render_of st\<close> holds the two constants of the render that shows state
  \<open>st\<close>.
\<close>

record render =
  r_session :: "Session option"
  r_isMonitoring :: bool

definition render_of :: "page \<Rightarrow> render" where
  "render_of st = \<lparr>r_session = session st, r_isMonitoring = isMonitoring st\<rparr>"

text \<open>
  \<open>handleConnect\<close>, with the outcome of \<open>openPort\<close> as a parameter. On success it
  returns the render whose \<open>readLoop\<close> it has started.
\<close>

definition handleConnect :: "page \<Rightarrow> thrown + unit \<Rightarrow> page \<times> render option" where
  "handleConnect st opened =
     (if selectedPortIdx st < 0 then (st, None)
      else (let st1 = st\<lparr>err := None\<rparr>
            in case opened of
                 Inl e \<Rightarrow> (st1\<lparr>err := Some (message e ''No se pudo abrir el puerto serial.'')\<rparr>, None)
               | Inr u \<Rightarrow> (st1\<lparr>io := True, closeLoopRef := False\<rparr>, Some (render_of st))))"

text \<open>
  \<open>handleStart\<close>, with the outcome of the write as a parameter: when \<open>writeLine\<close>
  rejects, the handler ends there.
\<close>

definition handleStart :: "page \<Rightarrow> thrown + unit \<Rightarrow> page" where
  "handleStart st wrote =
     (if \<not> io st \<or> session st = None then st
      else (let st1 = st\<lparr>err := None, startedFromDevice := False\<rparr>
            in case wrote of
                 Inl e \<Rightarrow> st1
               | Inr u \<Rightarrow> st1\<lparr>written := written st1 @ [writeLine ''1''], isMonitoring := True\<rparr>))"

text \<open>
  \<open>handleConnect\<close> in its two phases, for the handlers that can run while \<open>openPort\<close>
  is pending: up to the \<open>await\<close> (the click, which fixes the render whose \<open>readLoop\<close>
  will run), and from the \<open>await\<close> on, applied to the state the page has by then.
\<close>

definition handleConnect_begin :: "page \<Rightarrow> page \<times> render option" where
  "handleConnect_begin st =
     (if selectedPortIdx st < 0 then (st, None)
      else (st\<lparr>err := None\<rparr>, Some (render_of st)))"

definition handleConnect_opened :: "render \<Rightarrow> thrown + unit \<Rightarrow> page \<Rightarrow> page \<times> render option" where
  "handleConnect_opened rd opened st =
     (case opened of
        Inl e \<Rightarrow> (st\<lparr>err := Some (message e ''No se pudo abrir el puerto serial.'')\<rparr>, None)
      | Inr u \<Rightarrow> (st\<lparr>io := True, closeLoopRef := False\<rparr>, Some rd))"

text \<open>
  \<open>handleDisconnect\<close> and \<open>handleReset\<close> on this state (\<open>io.close()\<close> acts on the port
  and \<open>setPatientId\<close> on a cell outside this record).
\<close>

definition handleDisconnect :: "page \<Rightarrow> page" where
  "handleDisconnect st =
     (if \<not> io st then st
      else st\<lparr>closeLoopRef := True, io := False\<rparr>)"

definition handleReset :: "page \<Rightarrow> page" where
  "handleReset st =
     (if isMonitoring st then st
      else (let st1 = handleDisconnect st
            in st1\<lparr>realtime := [], startedFromDevice := False, session := None, err := None,
                   selectedPortIdx := - 1\<rparr>))"

text \<open>\<open>slice(-n)\<close>: the last \<open>n\<close> elements, or the whole list when it is shorter.\<close>

definition slice_last :: "nat \<Rightarrow> 'a list \<Rightarrow> 'a list" where
  "slice_last n xs = (if length xs \<le> n then xs else drop (length xs - n) xs)"

text \<open>The updater handed to \<open>setRealtime\<close>.\<close>

definition push_reading :: "RealtimeRow list \<Rightarrow> RealtimeRow \<Rightarrow> RealtimeRow list" where
  "push_reading prev reading = (let up = prev @ [reading] in slice_last 200 up)"

text \<open>
  One turn of the \<open>while\<close> loop needs the outcome of \<open>reader.read()\<close> and two readings of
  the clock: \<open>new Date().toISOString()\<close> in \<open>parseLine\<close> and \<open>Date.now()\<close> in the loop.
\<close>

datatype read_result = Value string | Done | Rejected thrown

record tick =
  read :: read_result
  iso_now :: string
  date_now :: int

datatype flow = Continue | Break

text \<open>The \<open>catch\<close> clause of the loop.\<close>

definition readLoop_catch :: "thrown \<Rightarrow> page \<Rightarrow> page \<times> flow" where
  "readLoop_catch e st =
     (if closeLoopRef st then (st, Break)
      else (st\<lparr>err := Some (message e ''Error leyendo datos del dispositivo.'')\<rparr>, Break))"

text \<open>The body of the \<open>while\<close> loop, run in the closure of render \<open>rd\<close>.\<close>

definition readLoop_body ::
  "(string \<Rightarrow> thrown + jsval) \<Rightarrow> (jsval \<Rightarrow> thrown + number) \<Rightarrow> render \<Rightarrow> tick \<Rightarrow> page
     \<Rightarrow> page \<times> flow" where
  "readLoop_body JSON_parse conv rd t st =
     (case read t of
        Rejected e \<Rightarrow> readLoop_catch e st
      | Done \<Rightarrow> (st, Break)
      | Value v \<Rightarrow>
          if v = [] then (st, Continue)
          else (case parseLine JSON_parse conv (iso_now t) v of
                  Inl e \<Rightarrow> readLoop_catch e st
                | Inr None \<Rightarrow> (st, Continue)
                | Inr (Some reading) \<Rightarrow>
                    (let st1 = (if r_session rd \<noteq> None \<and> \<not> r_isMonitoring rd
                                then st\<lparr>isMonitoring := True, startedFromDevice := True\<rparr>
                                else st);
                         st2 = st1\<lparr>realtime := push_reading (realtime st1) reading\<rparr>;
                         now = date_now t
                     in case r_session rd of
                          None \<Rightarrow> (st2, Continue)
                        | Some s \<Rightarrow>
                            if now - lastSentRef st2 \<ge> 1000
                            then (st2\<lparr>lastSentRef := now,
                                       addData_calls := addData_calls st2 @
                                         [(session_id s,
                                           \<lparr>pulse = clamp (pulse reading) (Finite 20) (Finite 240),
                                            oxygenSaturation =
                                              clamp (oxygenSaturation reading) (Finite 50) (Finite 100),
                                            temperatureC =
                                              clamp (temperatureC reading) (Finite 30) (Finite 45),
                                            systolic = clamp (systolic reading) (Finite 50) (Finite 260),
                                            diastolic =
                                              clamp (diastolic reading) (Finite 30) (Finite 200)\<rparr>)]\<rparr>,
                                  Continue)
                            else (st2, Continue))))"

text \<open>
  \<open>readLoop\<close> over the reads that complete, in order. The loop ends on a break or when
  it finds \<open>closeLoopRef\<close> set; with no read left it is waiting for the next one.
\<close>

fun readLoop ::
  "(string \<Rightarrow> thrown + jsval) \<Rightarrow> (jsval \<Rightarrow> thrown + number) \<Rightarrow> render \<Rightarrow> tick list \<Rightarrow> page
     \<Rightarrow> page" where
  "readLoop JSON_parse conv rd [] st = st"
| "readLoop JSON_parse conv rd (t # ts) st =
     (if closeLoopRef st then st
      else (case readLoop_body JSON_parse conv rd t st of
              (st1, Break) \<Rightarrow> st1
            | (st1, Continue) \<Rightarrow> readLoop JSON_parse conv rd ts st1))"




text \<open>A read that hands the loop a line the parser accepts.\<close>

definition accepted ::
  "(string \<Rightarrow> thrown + jsval) \<Rightarrow> (jsval \<Rightarrow> thrown + number) \<Rightarrow> tick \<Rightarrow> RealtimeRow option" where
  "accepted JSON_parse conv t =
     (case read t of
        Value v \<Rightarrow> (case parseLine JSON_parse conv (iso_now t) v of
                      Inr (Some reading) \<Rightarrow> Some reading
                    | _ \<Rightarrow> None)
      | _ \<Rightarrow> None)"

subsection \<open>The statements about the parser\<close>

text \<open>
  The five logical fields, each with its two spellings in the order the parser tries them
  (the comment above \<open>parseLine\<close> lists the same pairs).
\<close>

definition aliases :: "(string \<times> string) list" where
  "aliases = [(''pulse'', ''bpm''), (''spo2'', ''oxygenSaturation''), (''temp'', ''temperatureC''),
              (''sys'', ''systolic''), (''dia'', ''diastolic'')]"

text \<open>\<open>Number(obj.first ?? obj.second)\<close>, the expression each field is read with.\<close>

fun resolved :: "(jsval \<Rightarrow> thrown + number) \<Rightarrow> jsval \<Rightarrow> string \<times> string \<Rightarrow> thrown + number" where
  "resolved conv obj (first, second) = and_then (coalesce obj first second) (Number conv)"

text \<open>The field resolves, without a throw, to a number \<open>Number.isFinite\<close> accepts.\<close>

fun finite_field :: "(jsval \<Rightarrow> thrown + number) \<Rightarrow> jsval \<Rightarrow> string \<times> string \<Rightarrow> bool" where
  "finite_field conv obj names =
     (case resolved conv obj names of Inl e \<Rightarrow> False | Inr x \<Rightarrow> isFinite x)"

text \<open>
  For the examples: four lines of the wire protocol with the objects \<open>JSON.parse\<close>
  returns for them (the five numbers under the first spellings, with a \<open>bpm\<close> that
  \<open>pulse\<close> overrides; the same numbers under the second spellings; a line without a
  temperature; a line with a pulse of 300), a decoder that agrees with \<open>JSON.parse\<close> on
  these lines and takes any other text as malformed, and a conversion under which no
  string, array or object is numeric.
\<close>

definition example_line_first :: string where
  \<open>example_line_first = ''{"pulse":70,"bpm":55,"spo2":97,"temp":36.5,"sys":120,"dia":80}''\<close>

definition example_object_first :: "(string \<times> jsval) list" where
  "example_object_first =
     [(''pulse'', Num (Finite 70)), (''bpm'', Num (Finite 55)), (''spo2'', Num (Finite 97)),
      (''temp'', Num (Finite 36.5)), (''sys'', Num (Finite 120)), (''dia'', Num (Finite 80))]"

definition example_line_second :: string where
  \<open>example_line_second =
     ''{"bpm":70,"oxygenSaturation":97,"temperatureC":36.5,"systolic":120,"diastolic":80}''\<close>

definition example_object_second :: "(string \<times> jsval) list" where
  "example_object_second =
     [(''bpm'', Num (Finite 70)), (''oxygenSaturation'', Num (Finite 97)),
      (''temperatureC'', Num (Finite 36.5)), (''systolic'', Num (Finite 120)),
      (''diastolic'', Num (Finite 80))]"

definition example_line_no_temp :: string where
  \<open>example_line_no_temp = ''{"pulse":70,"spo2":97,"sys":120,"dia":80}''\<close>

definition example_object_no_temp :: "(string \<times> jsval) list" where
  "example_object_no_temp =
     [(''pulse'', Num (Finite 70)), (''spo2'', Num (Finite 97)), (''sys'', Num (Finite 120)),
      (''dia'', Num (Finite 80))]"

definition example_line_pulse_300 :: string where
  \<open>example_line_pulse_300 = ''{"pulse":300,"spo2":97,"temp":36.5,"sys":120,"dia":80}''\<close>

definition example_object_pulse_300 :: "(string \<times> jsval) list" where
  "example_object_pulse_300 =
     [(''pulse'', Num (Finite 300)), (''spo2'', Num (Finite 97)), (''temp'', Num (Finite 36.5)),
      (''sys'', Num (Finite 120)), (''dia'', Num (Finite 80))]"

definition example_JSON_parse :: "string \<Rightarrow> thrown + jsval" where
  "example_JSON_parse s =
     (if s = example_line_first then Inr (Obj example_object_first)
      else if s = example_line_second then Inr (Obj example_object_second)
      else if s = example_line_no_temp then Inr (Obj example_object_no_temp)
      else if s = example_line_pulse_300 then Inr (Obj example_object_pulse_300)
      else Inl (SyntaxError ''Unexpected token''))"

definition example_conv :: "jsval \<Rightarrow> thrown + number" where
  "example_conv v = Inr NaN"

subsection \<open>The statements about the read loop\<close>

text \<open>The object \<open>readLoop\<close> hands to \<open>sessionService.addData\<close> for a reading.\<close>

definition payload_of :: "RealtimeRow \<Rightarrow> SessionData" where
  "payload_of reading =
     \<lparr>pulse = clamp (pulse reading) (Finite 20) (Finite 240),
      oxygenSaturation = clamp (oxygenSaturation reading) (Finite 50) (Finite 100),
      temperatureC = clamp (temperatureC reading) (Finite 30) (Finite 45),
      systolic = clamp (systolic reading) (Finite 50) (Finite 260),
      diastolic = clamp (diastolic reading) (Finite 30) (Finite 200)\<rparr>"

text \<open>A finite number between two bounds, the bounds included.\<close>

fun in_range :: "rat \<Rightarrow> rat \<Rightarrow> number \<Rightarrow> bool" where
  "in_range lo hi (Finite q) = (lo \<le> q \<and> q \<le> hi)"
| "in_range lo hi x = False"

text \<open>
  For the examples: the row of a line whose pulse is 300, a read that delivers this line
  while \<open>Date.now()\<close> is \<open>now\<close>, and the page once a session is created and a port is
  selected.
\<close>

definition example_reading :: "string \<Rightarrow> RealtimeRow" where
  "example_reading ts =
     \<lparr>pulse = Finite 300, oxygenSaturation = Finite 97, temperatureC = Finite 36.5,
      systolic = Finite 120, diastolic = Finite 80, timestamp = ts\<rparr>"

definition example_tick :: "int \<Rightarrow> tick" where
  "example_tick now =
     \<lparr>read = Value example_line_pulse_300, iso_now = ''2025-01-01T00:00:00.000Z'',
      date_now = now\<rparr>"

definition example_page :: page where
  "example_page =
     \<lparr>session = Some \<lparr>session_id = ''s-1'', endedAt = None\<rparr>, selectedPortIdx = 0, io = False,
      isMonitoring = False, startedFromDevice = False, err = None, realtime = [],
      lastSentRef = 0, closeLoopRef = False, addData_calls = [], written = []\<rparr>"


section \<open>Properties of the transport\<close>

lemma LF_neq_CR [simp]: "LF \<noteq> CR" "CR \<noteq> LF"
  by (simp_all add: LF_def CR_def)

lemma split_lines_nonempty [simp]: "split_lines s \<noteq> []"
  by (induction s rule: split_lines.induct) (auto split: list.splits)

lemma split_lines_plain:
  "\<not> (c = CR \<and> cs \<noteq> [] \<and> hd cs = LF) \<Longrightarrow> c \<noteq> LF \<Longrightarrow>
   split_lines (c # cs) =
     (case split_lines cs of [] \<Rightarrow> [[c]] | piece # pieces \<Rightarrow> (c # piece) # pieces)"
  by (cases "c = CR") auto

lemma split_lines_single: "split_lines s = [x] \<Longrightarrow> x = s"
proof (induction s arbitrary: x rule: split_lines.induct)
  case 1
  then show ?case by simp
next
  case (2 c cs)
  from 2(4) have plain: "\<not> (c = CR \<and> cs \<noteq> [] \<and> hd cs = LF)" "c \<noteq> LF"
    by (auto split: if_splits)
  obtain p ps where sp: "split_lines cs = p # ps"
    using split_lines_nonempty [of cs] by (cases "split_lines cs") auto
  with 2(4) plain have "ps = []" "x = c # p" by auto
  with sp 2(3) [OF plain, of p] show ?case by simp
qed

lemma split_lines_append:
  "split_lines (a @ b) = butlast (split_lines a) @ split_lines (last (split_lines a) @ b)"
proof (induction a rule: split_lines.induct)
  case 1
  show ?case by simp
next
  case (2 c cs)
  show ?case
  proof (cases "c = CR \<and> cs \<noteq> [] \<and> hd cs = LF")
    case True
    then obtain cs' where cs: "cs = LF # cs'" by (cases cs) auto
    from True 2(1) have "split_lines (tl cs @ b) =
        butlast (split_lines (tl cs)) @ split_lines (last (split_lines (tl cs)) @ b)"
      by simp
    then show ?thesis using True cs by simp
  next
    case crlf: False
    show ?thesis
    proof (cases "c = LF")
      case True
      then show ?thesis using crlf 2(2) by simp
    next
      case False
      note IH = 2(3) [OF crlf False]
      obtain p ps where sp: "split_lines cs = p # ps"
        by (cases "split_lines cs") auto
      show ?thesis
      proof (cases ps)
        case Nil
        with sp have "p = cs" using split_lines_single by blast
        with sp Nil crlf False have sc: "split_lines (c # cs) = [c # cs]" by simp
        show ?thesis unfolding sc by simp
      next
        case (Cons q qs)
        have ne: "cs \<noteq> []" using sp Cons by (cases cs) auto
        then have cond: "\<not> (c = CR \<and> cs @ b \<noteq> [] \<and> hd (cs @ b) = LF)"
          using crlf by auto
        have "split_lines ((c # cs) @ b) =
            (case split_lines (cs @ b) of [] \<Rightarrow> [[c]] | piece # pieces \<Rightarrow> (c # piece) # pieces)"
          using split_lines_plain [OF cond False] by simp
        also have "\<dots> = (c # p) # butlast ps @ split_lines (last ps @ b)"
          using IH sp Cons by simp
        finally show ?thesis
          using sp Cons by (simp add: split_lines_plain [OF crlf False] del: split_lines.simps)
      qed
    qed
  qed
qed

lemma split_lines_last:
  "split_lines (last (split_lines s)) = [last (split_lines s)]"
proof (induction s rule: split_lines.induct)
  case 1
  show ?case by simp
next
  case (2 c cs)
  show ?case
  proof (cases "c = CR \<and> cs \<noteq> [] \<and> hd cs = LF")
    case True
    with 2(1) show ?thesis by simp
  next
    case crlf: False
    show ?thesis
    proof (cases "c = LF")
      case True
      with crlf 2(2) show ?thesis by simp
    next
      case False
      note IH = 2(3) [OF crlf False]
      obtain p ps where sp: "split_lines cs = p # ps"
        by (cases "split_lines cs") auto
      show ?thesis
      proof (cases ps)
        case Nil
        with sp have "p = cs" using split_lines_single by blast
        with sp Nil crlf False have sc: "split_lines (c # cs) = [c # cs]" by simp
        show ?thesis unfolding sc using sc by simp
      next
        case (Cons q qs)
        with sp have "last (split_lines (c # cs)) = last (split_lines cs)"
          by (simp add: split_lines_plain [OF crlf False] del: split_lines.simps)
        with IH show ?thesis by simp
      qed
    qed
  qed
qed

lemma transform_split:
  "transform t chunk =
     (t\<lparr>carry := last (split_lines (carry t @ chunk))\<rparr>,
      filter (\<lambda>line. line \<noteq> []) (butlast (split_lines (carry t @ chunk))))"
  by (simp add: transform_def Let_def)

lemma pump_split:
  "split_lines (carry t) = [carry t] \<Longrightarrow>
   pump t chunks =
     (t\<lparr>carry := last (split_lines (carry t @ concat chunks))\<rparr>,
      filter (\<lambda>line. line \<noteq> []) (butlast (split_lines (carry t @ concat chunks))))"
proof (induction chunks arbitrary: t)
  case Nil
  then show ?case by simp
next
  case (Cons chunk chunks)
  let ?t1 = "t\<lparr>carry := last (split_lines (carry t @ chunk))\<rparr>"
  have inv: "split_lines (carry ?t1) = [carry ?t1]"
    by (simp add: split_lines_last)
  have app: "split_lines (carry t @ chunk @ concat chunks) =
      butlast (split_lines (carry t @ chunk)) @ split_lines (carry ?t1 @ concat chunks)"
    using split_lines_append [of "carry t @ chunk" "concat chunks"] by simp
  show ?case
    using Cons.IH [OF inv] app
    by (simp add: transform_split butlast_append del: split_lines.simps)
qed

lemma line_stream_split:
  "line_stream chunks = filter (\<lambda>line. line \<noteq> []) (butlast (split_lines (concat chunks)))"
  using pump_split [of "\<lparr>carry = []\<rparr>" chunks]
  by (simp add: line_stream_def flush_def)


lemma split_lines_no_LF: "LF \<notin> set s \<Longrightarrow> split_lines s = [s]"
proof (induction s)
  case Nil
  show ?case by simp
next
  case (Cons c s)
  then have "\<not> (c = CR \<and> s \<noteq> [] \<and> hd s = LF)" "c \<noteq> LF"
    by (cases s; auto)+
  from split_lines_plain [OF this] Cons show ?case by simp
qed

lemma split_lines_CRNL:
  "LF \<notin> set l \<Longrightarrow> split_lines (l @ CR # LF # rest) = l # split_lines rest"
proof (induction l)
  case Nil
  show ?case by simp
next
  case (Cons c l)
  then have "\<not> (c = CR \<and> l @ CR # LF # rest \<noteq> [] \<and> hd (l @ CR # LF # rest) = LF)"
    "c \<noteq> LF"
    by (cases l; auto)+
  from split_lines_plain [OF this] Cons show ?case by simp
qed

lemma split_lines_NL:
  "LF \<notin> set l \<Longrightarrow> l = [] \<or> last l \<noteq> CR \<Longrightarrow>
   split_lines (l @ LF # rest) = l # split_lines rest"
proof (induction l)
  case Nil
  show ?case by simp
next
  case (Cons c l)
  then have "\<not> (c = CR \<and> l @ LF # rest \<noteq> [] \<and> hd (l @ LF # rest) = LF)" "c \<noteq> LF"
    by (cases l; auto)+
  moreover have "l = [] \<or> last l \<noteq> CR" using Cons.prems by (cases l) auto
  ultimately show ?case using split_lines_plain [of c "l @ LF # rest"] Cons by simp
qed

lemma split_lines_line_text:
  "complete_line sl \<Longrightarrow> split_lines (line_text sl @ rest) = fst sl # split_lines rest"
proof (cases sl)
  case (Pair content t)
  assume "complete_line sl"
  with Pair show ?thesis
    by (cases t) (auto simp: split_lines_NL split_lines_CRNL simp del: split_lines.simps)
qed

lemma split_lines_framed:
  "list_all complete_line ls \<Longrightarrow> LF \<notin> set fragment \<Longrightarrow>
   split_lines (framed ls fragment) = map fst ls @ [fragment]"
proof (induction ls)
  case Nil
  then show ?case by (simp add: framed_def split_lines_no_LF)
next
  case (Cons sl ls)
  then have "split_lines (framed ls fragment) = map fst ls @ [fragment]" by simp
  moreover have "framed (sl # ls) fragment = line_text sl @ framed ls fragment"
    by (simp add: framed_def)
  ultimately show ?case using Cons.prems split_lines_line_text [of sl] by simp
qed

text \<open>
  Claim C1 (line framing), as the code has it. When the chunks, joined, are complete lines
  followed by a fragment without a line feed, the reader delivers the contents of the
  complete lines that are not empty, in arrival order and without their terminators; a
  blank line delivers nothing, so the count is the number of complete lines only when
  none of them is blank. The fragment stays in the carry, the flush delivers nothing and
  empties the carry.
\<close>

theorem line_framing_skips_blank_lines:
  assumes "concat chunks = framed ls fragment"
    and "list_all complete_line ls"
    and "LF \<notin> set fragment"
  shows "line_stream chunks = filter (\<lambda>line. line \<noteq> []) (map fst ls)
       \<and> (list_all (\<lambda>sl. fst sl \<noteq> []) ls \<longrightarrow>
            line_stream chunks = map fst ls \<and> length (line_stream chunks) = length ls)
       \<and> carry (fst (pump \<lparr>carry = []\<rparr> chunks)) = fragment
       \<and> snd (flush (fst (pump \<lparr>carry = []\<rparr> chunks))) = []
       \<and> carry (fst (flush (fst (pump \<lparr>carry = []\<rparr> chunks)))) = []"
proof -
  have sp: "split_lines (concat chunks) = map fst ls @ [fragment]"
    using assms split_lines_framed by simp
  have out: "line_stream chunks = filter (\<lambda>line. line \<noteq> []) (map fst ls)"
    by (simp add: line_stream_split sp)
  have keep: "list_all (\<lambda>sl. fst sl \<noteq> []) ls \<longrightarrow>
      filter (\<lambda>line. line \<noteq> []) (map fst ls) = map fst ls"
    by (induction ls) auto
  have c: "carry (fst (pump \<lparr>carry = []\<rparr> chunks)) = fragment"
    using pump_split [of "\<lparr>carry = []\<rparr>" chunks] sp by simp
  show ?thesis using out keep c by (simp add: flush_def)
qed

text \<open>A stream whose chunk boundaries fall inside a terminator, with one blank line.\<close>

theorem line_framing_witness:
  "concat [''ab'' @ [CR], [LF] @ ''c'', [LF, CR, LF] @ ''d''] =
     framed [(''ab'', CRNL), (''c'', NL), ([], CRNL)] ''d''
   \<and> list_all complete_line [(''ab'', CRNL), (''c'', NL), ([], CRNL)]
   \<and> LF \<notin> set ''d''
   \<and> line_stream [''ab'' @ [CR], [LF] @ ''c'', [LF, CR, LF] @ ''d''] = [''ab'', ''c'']"
proof -
  have a: "concat [''ab'' @ [CR], [LF] @ ''c'', [LF, CR, LF] @ ''d''] =
     framed [(''ab'', CRNL), (''c'', NL), ([], CRNL)] ''d''"
    by (simp add: framed_def)
  have b: "list_all complete_line [(''ab'', CRNL), (''c'', NL), ([], CRNL)]"
    by (simp add: LF_def CR_def)
  have c: "LF \<notin> set ''d''"
    by (simp add: LF_def)
  show ?thesis
    using a b c line_framing_skips_blank_lines [OF a b c] by simp
qed

text \<open>
  Claim C1 as stated asks for as many delivered lines as there are complete lines. Three
  complete lines, the second one blank, deliver two.
\<close>

theorem line_framing_counterexample:
  "concat [''a'' @ [LF, LF] @ ''b'' @ [LF]] = framed [(''a'', NL), ([], NL), (''b'', NL)] []
   \<and> list_all complete_line [(''a'', NL), ([], NL), (''b'', NL)]
   \<and> line_stream [''a'' @ [LF, LF] @ ''b'' @ [LF]] = [''a'', ''b'']
   \<and> length (line_stream [''a'' @ [LF, LF] @ ''b'' @ [LF]])
       \<noteq> length [(''a'', NL), ([], NL), (''b'', NL)]"
  by (simp add: framed_def line_stream_def transform_def flush_def LF_def CR_def)

text \<open>
  Claim C9: no call of \<open>transform\<close> enqueues an empty line, whatever the carry and the
  chunk, so every line the reader delivers has length at least one.
\<close>

theorem splitter_never_emits_empty_line:
  "list_all (\<lambda>line. 1 \<le> length line) (snd (transform t chunk))
   \<and> list_all (\<lambda>line. 1 \<le> length line) (line_stream chunks)"
  by (simp add: line_stream_split transform_split list_all_iff Suc_le_eq)

text \<open>Consecutive terminators between two lines deliver nothing.\<close>

theorem splitter_never_emits_empty_line_witness:
  "line_stream [''a'' @ [LF, CR, LF], [LF] @ ''b'' @ [LF]] = [''a'', ''b'']
   \<and> list_all (\<lambda>line. 1 \<le> length line) (line_stream [''a'' @ [LF, CR, LF], [LF] @ ''b'' @ [LF]])"
  using splitter_never_emits_empty_line [of "\<lparr>carry = []\<rparr>" "[]" "[''a'' @ [LF, CR, LF], [LF] @ ''b'' @ [LF]]"]
  by (simp add: line_stream_def transform_def flush_def LF_def CR_def)

section \<open>Properties of the parser\<close>

lemma and_then_Inr_iff: "and_then m f = Inr y \<longleftrightarrow> (\<exists>a. m = Inr a \<and> f a = Inr y)"
  by (cases m) auto

lemma isFinite_iff: "isFinite x \<longleftrightarrow> (\<exists>q. x = Finite q)"
  by (cases x) auto

lemma parseLine_try_Some_iff:
  "parseLine_try JSON_parse conv ts s = Inr (Some r) \<longleftrightarrow>
     (\<exists>obj p ox t sy d.
        JSON_parse s = Inr obj
      \<and> resolved conv obj (''pulse'', ''bpm'') = Inr p
      \<and> resolved conv obj (''spo2'', ''oxygenSaturation'') = Inr ox
      \<and> resolved conv obj (''temp'', ''temperatureC'') = Inr t
      \<and> resolved conv obj (''sys'', ''systolic'') = Inr sy
      \<and> resolved conv obj (''dia'', ''diastolic'') = Inr d
      \<and> isFinite p \<and> isFinite ox \<and> isFinite t \<and> isFinite sy \<and> isFinite d
      \<and> r = \<lparr>pulse = p, oxygenSaturation = ox, temperatureC = t,
              systolic = sy, diastolic = d, timestamp = ts\<rparr>)"
  unfolding parseLine_try_def resolved.simps and_then_Inr_iff Let_def
  by (auto split: if_splits)

lemma parseLine_cases:
  "parseLine JSON_parse conv ts line =
     (if trim line \<noteq> [] \<and> startsWith (trim line) ''{'' \<and> endsWith (trim line) ''}''
      then (case parseLine_try JSON_parse conv ts (trim line) of
              Inl e \<Rightarrow> Inr None | Inr r \<Rightarrow> Inr r)
      else Inr None)"
  by (simp add: parseLine_def Let_def)

lemma parseLine_Some_iff:
  "parseLine JSON_parse conv ts line = Inr (Some r) \<longleftrightarrow>
     trim line \<noteq> [] \<and> startsWith (trim line) ''{'' \<and> endsWith (trim line) ''}''
     \<and> parseLine_try JSON_parse conv ts (trim line) = Inr (Some r)"
  by (auto simp: parseLine_cases split: sum.splits)

lemma parseLine_returns:
  "parseLine JSON_parse conv ts line = Inr None
   \<or> (\<exists>r. parseLine JSON_parse conv ts line = Inr (Some r))"
  by (cases "parseLine_try JSON_parse conv ts (trim line)")
     (auto simp: parseLine_cases)

lemma resolved_missing:
  "map_of ps (fst names) = None \<Longrightarrow> map_of ps (snd names) = None \<Longrightarrow>
   resolved conv (Obj ps) names = Inr NaN"
  by (cases names) (simp add: coalesce_def)

lemma finite_field_iff:
  "finite_field conv obj names \<longleftrightarrow> (\<exists>q. resolved conv obj names = Inr (Finite q))"
proof (cases "resolved conv obj names")
  case (Inl e)
  then show ?thesis by simp
next
  case (Inr x)
  then show ?thesis by (cases x) simp_all
qed

lemma parseLine_try_accepts_iff:
  "(\<exists>r. parseLine_try JSON_parse conv ts s = Inr (Some r)) \<longleftrightarrow>
     (\<exists>obj. JSON_parse s = Inr obj \<and> list_all (finite_field conv obj) aliases)"
  by (auto simp: parseLine_try_Some_iff aliases_def finite_field_iff isFinite_iff
        simp del: resolved.simps finite_field.simps)


text \<open>
  Claim C3 (all-or-nothing validation). \<open>parseLine\<close> returns \<open>null\<close> or a row, and it
  returns a row exactly when the trimmed line is wrapped in braces, decodes, and every one
  of the five fields resolves to a finite number. One field that is missing under both
  spellings, or does not coerce to a finite number, makes the whole line \<open>null\<close>; a row
  that is returned has five finite fields.
\<close>

theorem parseLine_all_or_nothing:
  "(parseLine JSON_parse conv ts line = Inr None
      \<or> (\<exists>r. parseLine JSON_parse conv ts line = Inr (Some r)))
   \<and> ((\<exists>r. parseLine JSON_parse conv ts line = Inr (Some r)) \<longleftrightarrow>
        startsWith (trim line) ''{'' \<and> endsWith (trim line) ''}''
        \<and> (\<exists>obj. JSON_parse (trim line) = Inr obj \<and> list_all (finite_field conv obj) aliases))
   \<and> (\<forall>obj names. JSON_parse (trim line) = Inr obj \<and> names \<in> set aliases
          \<and> \<not> finite_field conv obj names
        \<longrightarrow> parseLine JSON_parse conv ts line = Inr None)
   \<and> (\<forall>ps names. JSON_parse (trim line) = Inr (Obj ps) \<and> names \<in> set aliases
          \<and> map_of ps (fst names) = None \<and> map_of ps (snd names) = None
        \<longrightarrow> parseLine JSON_parse conv ts line = Inr None)
   \<and> (\<forall>r. parseLine JSON_parse conv ts line = Inr (Some r) \<longrightarrow>
          isFinite (pulse r) \<and> isFinite (oxygenSaturation r) \<and> isFinite (temperatureC r)
        \<and> isFinite (systolic r) \<and> isFinite (diastolic r))"
proof -
  let ?res = "parseLine JSON_parse conv ts line"
  have total: "?res = Inr None \<or> (\<exists>r. ?res = Inr (Some r))"
    by (rule parseLine_returns)
  have nonempty: "startsWith (trim line) ''{'' \<Longrightarrow> trim line \<noteq> []"
    by (auto simp: startsWith_def)
  have iff: "(\<exists>r. ?res = Inr (Some r)) \<longleftrightarrow>
        startsWith (trim line) ''{'' \<and> endsWith (trim line) ''}''
        \<and> (\<exists>obj. JSON_parse (trim line) = Inr obj \<and> list_all (finite_field conv obj) aliases)"
    using nonempty parseLine_try_accepts_iff [of JSON_parse conv ts "trim line"]
    unfolding parseLine_Some_iff by blast
  have one: "?res = Inr None"
    if "JSON_parse (trim line) = Inr obj" "names \<in> set aliases" "\<not> finite_field conv obj names"
    for obj names
  proof -
    from that have "\<not> (\<exists>o'. JSON_parse (trim line) = Inr o' \<and> list_all (finite_field conv o') aliases)"
      by (auto simp: list_all_iff)
    with iff have "\<not> (\<exists>r. ?res = Inr (Some r))" by blast
    with total show ?thesis by blast
  qed
  have missing: "?res = Inr None"
    if "JSON_parse (trim line) = Inr (Obj ps)" "names \<in> set aliases"
       "map_of ps (fst names) = None" "map_of ps (snd names) = None"
    for ps names
  proof -
    from that(3,4) have "\<not> finite_field conv (Obj ps) names"
      by (simp add: resolved_missing)
    with that(1,2) show ?thesis by (rule one)
  qed
  have fin: "isFinite (pulse r) \<and> isFinite (oxygenSaturation r) \<and> isFinite (temperatureC r)
        \<and> isFinite (systolic r) \<and> isFinite (diastolic r)" if "?res = Inr (Some r)" for r
    using that unfolding parseLine_Some_iff parseLine_try_Some_iff by auto
  show ?thesis using total iff one missing fin by blast
qed


lemma example_lines_wrapped:
  "trim example_line_first = example_line_first"
  "trim example_line_second = example_line_second"
  "trim example_line_no_temp = example_line_no_temp"
  "trim example_line_pulse_300 = example_line_pulse_300"
  "startsWith example_line_first ''{''" "endsWith example_line_first ''}''"
  "startsWith example_line_second ''{''" "endsWith example_line_second ''}''"
  "startsWith example_line_no_temp ''{''" "endsWith example_line_no_temp ''}''"
  "startsWith example_line_pulse_300 ''{''" "endsWith example_line_pulse_300 ''}''"
  "example_line_pulse_300 \<noteq> []"
  by (simp_all add: trim_def is_space_def startsWith_def endsWith_def example_line_first_def
        example_line_second_def example_line_no_temp_def example_line_pulse_300_def)

lemma example_JSON_parse_lines:
  "example_JSON_parse example_line_first = Inr (Obj example_object_first)"
  "example_JSON_parse example_line_second = Inr (Obj example_object_second)"
  "example_JSON_parse example_line_no_temp = Inr (Obj example_object_no_temp)"
  "example_JSON_parse example_line_pulse_300 = Inr (Obj example_object_pulse_300)"
  by (simp_all add: example_JSON_parse_def example_line_first_def example_line_second_def
        example_line_no_temp_def example_line_pulse_300_def)

text \<open>A line without a temperature under either spelling.\<close>

theorem parseLine_all_or_nothing_witness:
  "example_JSON_parse (trim example_line_no_temp) = Inr (Obj example_object_no_temp)
   \<and> (''temp'', ''temperatureC'') \<in> set aliases
   \<and> map_of example_object_no_temp ''temp'' = None
   \<and> map_of example_object_no_temp ''temperatureC'' = None
   \<and> \<not> finite_field example_conv (Obj example_object_no_temp) (''temp'', ''temperatureC'')
   \<and> parseLine example_JSON_parse example_conv ''2025-01-01T00:00:00.000Z''
         example_line_no_temp = Inr None"
proof -
  have a: "example_JSON_parse (trim example_line_no_temp) = Inr (Obj example_object_no_temp)"
    by (simp add: example_lines_wrapped example_JSON_parse_lines)
  have b: "(''temp'', ''temperatureC'') \<in> set aliases"
    by (simp add: aliases_def)
  have c: "map_of example_object_no_temp ''temp'' = None"
    "map_of example_object_no_temp ''temperatureC'' = None"
    by (simp_all add: example_object_no_temp_def)
  have d: "\<not> finite_field example_conv (Obj example_object_no_temp) (''temp'', ''temperatureC'')"
    using c by (simp add: coalesce_def)
  from parseLine_all_or_nothing [of example_JSON_parse example_conv
      "''2025-01-01T00:00:00.000Z''" example_line_no_temp]
  have "parseLine example_JSON_parse example_conv ''2025-01-01T00:00:00.000Z''
      example_line_no_temp = Inr None"
    using a b d by blast
  with a b c d show ?thesis by blast
qed






text \<open>
  Claim C4 (the parser never throws). For every decoder, every conversion, every clock
  value and every line, \<open>parseLine\<close> returns (a row or \<open>null\<close>) and no exception leaves
  it. A trimmed line that is not wrapped in braces gives \<open>null\<close>; so does a line on which
  \<open>JSON.parse\<close> throws, and any other throw inside the \<open>try\<close> block. The result depends
  on the line and the clock value only.
\<close>

theorem parseLine_never_throws:
  "parseLine JSON_parse conv ts line \<noteq> Inl e
   \<and> (\<exists>r. parseLine JSON_parse conv ts line = Inr r)
   \<and> (\<not> (startsWith (trim line) ''{'' \<and> endsWith (trim line) ''}'') \<longrightarrow>
        parseLine JSON_parse conv ts line = Inr None)
   \<and> (\<forall>e'. JSON_parse (trim line) = Inl e' \<longrightarrow> parseLine JSON_parse conv ts line = Inr None)
   \<and> (\<forall>e'. parseLine_try JSON_parse conv ts (trim line) = Inl e' \<longrightarrow>
        parseLine JSON_parse conv ts line = Inr None)"
proof -
  have thrown: "parseLine JSON_parse conv ts line = Inr None"
    if "parseLine_try JSON_parse conv ts (trim line) = Inl e'" for e'
    using that by (simp add: parseLine_cases)
  have "parseLine_try JSON_parse conv ts (trim line) = Inl e'"
    if "JSON_parse (trim line) = Inl e'" for e'
    using that by (simp add: parseLine_try_def)
  then have malformed: "parseLine JSON_parse conv ts line = Inr None"
    if "JSON_parse (trim line) = Inl e'" for e'
    using that thrown by blast
  have shape: "parseLine JSON_parse conv ts line = Inr None"
    if "\<not> (startsWith (trim line) ''{'' \<and> endsWith (trim line) ''}'')"
    using that by (auto simp: parseLine_cases)
  from parseLine_returns [of JSON_parse conv ts line]
  have ret: "\<exists>r. parseLine JSON_parse conv ts line = Inr r" by blast
  then have "parseLine JSON_parse conv ts line \<noteq> Inl e" by auto
  with ret shape malformed thrown show ?thesis by blast
qed

text \<open>A log line of the device, and a line in braces that is not JSON.\<close>

theorem parseLine_never_throws_witness:
  "\<not> (startsWith (trim ''boot ok'') ''{'' \<and> endsWith (trim ''boot ok'') ''}'')
   \<and> parseLine example_JSON_parse example_conv ''2025-01-01T00:00:00.000Z'' ''boot ok'' = Inr None
   \<and> example_JSON_parse (trim '' {pulse:70} '') = Inl (SyntaxError ''Unexpected token'')
   \<and> parseLine example_JSON_parse example_conv ''2025-01-01T00:00:00.000Z'' '' {pulse:70} ''
       = Inr None"
proof -
  have a: "\<not> (startsWith (trim ''boot ok'') ''{'' \<and> endsWith (trim ''boot ok'') ''}'')"
    by (simp add: trim_def is_space_def startsWith_def)
  have b: "example_JSON_parse (trim '' {pulse:70} '') = Inl (SyntaxError ''Unexpected token'')"
    by (simp add: trim_def is_space_def example_JSON_parse_def example_line_first_def
          example_line_second_def example_line_no_temp_def example_line_pulse_300_def)
  show ?thesis
    using a b
      parseLine_never_throws [of example_JSON_parse example_conv
        "''2025-01-01T00:00:00.000Z''" "''boot ok''"]
      parseLine_never_throws [of example_JSON_parse example_conv
        "''2025-01-01T00:00:00.000Z''" "'' {pulse:70} ''"]
    by blast
qed

section \<open>Properties of the read loop\<close>

lemma parseLine_empty: "parseLine JSON_parse conv ts [] = Inr None"
  by (simp add: parseLine_def trim_def)

lemma acceptedD:
  assumes "accepted JSON_parse conv t = Some reading"
  shows "\<exists>v. read t = Value v \<and> v \<noteq> []
           \<and> parseLine JSON_parse conv (iso_now t) v = Inr (Some reading)"
proof (cases "read t")
  case (Value v)
  with assms have p: "parseLine JSON_parse conv (iso_now t) v = Inr (Some reading)"
    by (auto simp: accepted_def split: sum.splits option.splits)
  then have "v \<noteq> []" using parseLine_empty [of JSON_parse conv "iso_now t"] by auto
  with Value p show ?thesis by simp
qed (use assms in \<open>simp_all add: accepted_def\<close>)

lemma readLoop_body_accepted:
  assumes "accepted JSON_parse conv t = Some reading"
  shows "readLoop_body JSON_parse conv rd t st =
     (let st1 = (if r_session rd \<noteq> None \<and> \<not> r_isMonitoring rd
                 then st\<lparr>isMonitoring := True, startedFromDevice := True\<rparr> else st);
          st2 = st1\<lparr>realtime := push_reading (realtime st1) reading\<rparr>
      in case r_session rd of
           None \<Rightarrow> (st2, Continue)
         | Some s \<Rightarrow>
             if date_now t - lastSentRef st2 \<ge> 1000
             then (st2\<lparr>lastSentRef := date_now t,
                        addData_calls := addData_calls st2 @ [(session_id s, payload_of reading)]\<rparr>,
                   Continue)
             else (st2, Continue))"
proof -
  from acceptedD [OF assms] obtain v where
    "read t = Value v" "v \<noteq> []" "parseLine JSON_parse conv (iso_now t) v = Inr (Some reading)"
    by blast
  then show ?thesis
    by (simp add: readLoop_body_def payload_of_def Let_def split: option.splits)
qed

lemma readLoop_body_not_accepted:
  assumes "accepted JSON_parse conv t = None"
  shows "\<exists>e. readLoop_body JSON_parse conv rd t st \<in>
           {(st, Continue), (st, Break), (st\<lparr>err := e\<rparr>, Break)}"
proof (cases "read t")
  case (Value v)
  show ?thesis
  proof (cases "v = []")
    case True
    with Value show ?thesis by (simp add: readLoop_body_def)
  next
    case False
    from assms Value have "parseLine JSON_parse conv (iso_now t) v \<noteq> Inr (Some r)" for r
      by (auto simp: accepted_def)
    with parseLine_returns [of JSON_parse conv "iso_now t" v]
    have "parseLine JSON_parse conv (iso_now t) v = Inr None" by blast
    with Value False show ?thesis by (simp add: readLoop_body_def)
  qed
next
  case Done
  then show ?thesis by (simp add: readLoop_body_def)
next
  case (Rejected e)
  then show ?thesis by (auto simp: readLoop_body_def readLoop_catch_def)
qed


lemma slice_last_drop: "slice_last n xs = drop (length xs - n) xs"
  by (simp add: slice_last_def)

lemma push_reading_drop:
  "push_reading prev reading = drop (length prev + 1 - 200) (prev @ [reading])"
  by (simp add: push_reading_def slice_last_drop)

lemma length_push_reading: "length (push_reading prev reading) \<le> 200"
  by (simp add: push_reading_drop)

lemma foldl_push_reading:
  "length buf \<le> 200 \<Longrightarrow>
   foldl push_reading buf rs = drop (length buf + length rs - 200) (buf @ rs)"
proof (induction rs rule: rev_induct)
  case Nil
  then show ?case by simp
next
  case (snoc r rs)
  define xs where "xs = buf @ rs"
  define n where "n = length xs - 200"
  have le: "n \<le> length xs" by (simp add: n_def)
  have arith: "length xs - n + 1 - 200 + n = length xs + 1 - 200"
    unfolding n_def by arith
  from snoc have "foldl push_reading buf (rs @ [r]) = push_reading (drop n xs) r"
    by (simp add: xs_def n_def)
  also have "\<dots> = drop (length xs - n + 1 - 200) (drop n xs @ [r])"
    by (simp add: push_reading_drop)
  also have "drop n xs @ [r] = drop n (xs @ [r])"
    using le by simp
  also have "drop (length xs - n + 1 - 200) (drop n (xs @ [r])) =
      drop (length xs - n + 1 - 200 + n) (xs @ [r])"
    by (simp only: drop_drop)
  also have "\<dots> = drop (length xs + 1 - 200) (xs @ [r])"
    by (simp only: arith)
  finally show ?case by (simp add: xs_def)
qed

lemma readLoop_realtime:
  assumes "\<not> closeLoopRef st" and "map (accepted JSON_parse conv) ticks = map Some rs"
  shows "realtime (readLoop JSON_parse conv rd ticks st) = foldl push_reading (realtime st) rs
       \<and> closeLoopRef (readLoop JSON_parse conv rd ticks st) = closeLoopRef st"
  using assms
proof (induction ticks arbitrary: st rs)
  case Nil
  then show ?case by simp
next
  case (Cons t ticks)
  from Cons.prems(2) obtain r rs' where rs: "rs = r # rs'"
    and acc: "accepted JSON_parse conv t = Some r"
    and rest: "map (accepted JSON_parse conv) ticks = map Some rs'"
    by (cases rs) auto
  obtain st1 where b: "readLoop_body JSON_parse conv rd t st = (st1, Continue)"
    and r1: "realtime st1 = push_reading (realtime st) r"
    and c1: "closeLoopRef st1 = closeLoopRef st"
    using readLoop_body_accepted [OF acc, of rd st]
    by (auto simp: Let_def split: option.splits if_splits)
  from Cons.IH [of st1 rs'] Cons.prems(1) c1 rest
  have "realtime (readLoop JSON_parse conv rd ticks st1) = foldl push_reading (realtime st1) rs'
      \<and> closeLoopRef (readLoop JSON_parse conv rd ticks st1) = closeLoopRef st1"
    by simp
  with Cons.prems(1) b r1 c1 rs show ?case by simp
qed

text \<open>
  Claim C5 (ring buffer). After every append the buffer holds at most 200 rows; an append
  keeps the order, adds the row at the end and, at 200 rows, drops the oldest one. Starting
  empty, the buffer after any appends is the last 200 of them in order: after 250 appends,
  exactly the last 200. The same holds for the buffer of the page after the loop has taken
  in the accepted readings.
\<close>

theorem ring_buffer_bounded_fifo:
  "length (push_reading prev reading) \<le> 200
   \<and> push_reading prev reading = drop (length prev + 1 - 200) (prev @ [reading])
   \<and> (length prev < 200 \<longrightarrow> push_reading prev reading = prev @ [reading])
   \<and> (length prev = 200 \<longrightarrow> push_reading prev reading = tl prev @ [reading])
   \<and> foldl push_reading [] rs = drop (length rs - 200) rs
   \<and> (length rs = 250 \<longrightarrow>
        foldl push_reading [] rs = drop 50 rs \<and> length (foldl push_reading [] rs) = 200)
   \<and> (\<not> closeLoopRef st \<and> realtime st = []
        \<and> map (accepted JSON_parse conv) ticks = map Some rs \<longrightarrow>
        realtime (readLoop JSON_parse conv rd ticks st) = drop (length rs - 200) rs)"
proof -
  have full: "push_reading prev reading = tl prev @ [reading]" if "length prev = 200"
    using that by (cases prev) (simp_all add: push_reading_drop)
  have fold: "foldl push_reading [] rs = drop (length rs - 200) rs"
    using foldl_push_reading [of "[]" rs] by simp
  have loop: "realtime (readLoop JSON_parse conv rd ticks st) = drop (length rs - 200) rs"
    if "\<not> closeLoopRef st" "realtime st = []"
       "map (accepted JSON_parse conv) ticks = map Some rs"
    using readLoop_realtime [OF that(1,3), of rd] that(2) fold by simp
  show ?thesis
    using full fold loop
    by (simp add: length_push_reading push_reading_drop)
qed


lemma accepted_example_tick:
  "accepted example_JSON_parse example_conv (example_tick now) =
     Some (example_reading ''2025-01-01T00:00:00.000Z'')"
proof -
  have "parseLine example_JSON_parse example_conv ''2025-01-01T00:00:00.000Z''
      example_line_pulse_300 = Inr (Some (example_reading ''2025-01-01T00:00:00.000Z''))"
    unfolding parseLine_cases
    by (simp add: example_lines_wrapped example_JSON_parse_lines parseLine_try_def
          coalesce_def example_object_pulse_300_def example_reading_def)
  then show ?thesis by (simp add: accepted_def example_tick_def)
qed

text \<open>250 rows told apart by their timestamps, and a run of the loop over two reads.\<close>

theorem ring_buffer_bounded_fifo_witness:
  "length (map (\<lambda>i. example_reading (replicate i CHR ''x'')) [0..<250]) = 250
   \<and> foldl push_reading [] (map (\<lambda>i. example_reading (replicate i CHR ''x'')) [0..<250]) =
       drop 50 (map (\<lambda>i. example_reading (replicate i CHR ''x'')) [0..<250])
   \<and> length (foldl push_reading []
         (map (\<lambda>i. example_reading (replicate i CHR ''x'')) [0..<250])) = 200
   \<and> \<not> closeLoopRef example_page \<and> realtime example_page = []
   \<and> map (accepted example_JSON_parse example_conv) [example_tick 0, example_tick 400] =
       map Some [example_reading ''2025-01-01T00:00:00.000Z'',
                 example_reading ''2025-01-01T00:00:00.000Z'']
   \<and> realtime (readLoop example_JSON_parse example_conv (render_of example_page)
         [example_tick 0, example_tick 400] example_page) =
       [example_reading ''2025-01-01T00:00:00.000Z'',
        example_reading ''2025-01-01T00:00:00.000Z'']"
proof -
  let ?rs = "map (\<lambda>i. example_reading (replicate i CHR ''x'')) [0..<250]"
  let ?r = "example_reading ''2025-01-01T00:00:00.000Z''"
  have a: "length ?rs = 250" by simp
  have b: "\<not> closeLoopRef example_page" "realtime example_page = []"
    by (simp_all add: example_page_def)
  have c: "map (accepted example_JSON_parse example_conv) [example_tick 0, example_tick 400] =
       map Some [?r, ?r]"
    by (simp add: accepted_example_tick)
  note r1 = ring_buffer_bounded_fifo [where rs = ?rs]
  note r2 = ring_buffer_bounded_fifo [where rs = "[?r, ?r]" and st = example_page
      and JSON_parse = example_JSON_parse and conv = example_conv
      and ticks = "[example_tick 0, example_tick 400]" and rd = "render_of example_page"]
  from r1 a have "foldl push_reading [] ?rs = drop 50 ?rs \<and> length (foldl push_reading [] ?rs) = 200"
    by blast
  moreover from r2 b c have "realtime (readLoop example_JSON_parse example_conv
      (render_of example_page) [example_tick 0, example_tick 400] example_page) = [?r, ?r]"
    by simp
  ultimately show ?thesis using a b c by blast
qed

lemma parseLine_Some_finite:
  assumes "parseLine JSON_parse conv ts line = Inr (Some r)"
  shows "\<exists>p ox t sy d. pulse r = Finite p \<and> oxygenSaturation r = Finite ox
           \<and> temperatureC r = Finite t \<and> systolic r = Finite sy \<and> diastolic r = Finite d"
  using assms unfolding parseLine_Some_iff parseLine_try_Some_iff isFinite_iff by auto

lemma clamp_Finite:
  "clamp (Finite q) (Finite lo) (Finite hi) = Finite (max lo (min hi q))"
  by (simp add: clamp_def)

lemma last_push_reading: "last (push_reading prev reading) = reading"
  by (simp add: push_reading_drop)


lemma payload_of_finite:
  assumes "pulse r = Finite p" "oxygenSaturation r = Finite ox" "temperatureC r = Finite t"
    "systolic r = Finite sy" "diastolic r = Finite d"
  shows "payload_of r =
     \<lparr>pulse = Finite (max 20 (min 240 p)), oxygenSaturation = Finite (max 50 (min 100 ox)),
      temperatureC = Finite (max 30 (min 45 t)), systolic = Finite (max 50 (min 260 sy)),
      diastolic = Finite (max 30 (min 200 d))\<rparr>"
  using assms by (simp add: payload_of_def clamp_Finite)

lemma readLoop_body_forward:
  assumes "readLoop_body JSON_parse conv rd t st = (st', fl)"
    and "addData_calls st' \<noteq> addData_calls st"
  shows "\<exists>reading s. accepted JSON_parse conv t = Some reading \<and> r_session rd = Some s
           \<and> date_now t - lastSentRef st \<ge> 1000 \<and> lastSentRef st' = date_now t
           \<and> addData_calls st' = addData_calls st @ [(session_id s, payload_of reading)]
           \<and> realtime st' = push_reading (realtime st) reading"
proof (cases "accepted JSON_parse conv t")
  case None
  from readLoop_body_not_accepted [OF None, of rd st] assms show ?thesis by auto
next
  case (Some reading)
  from readLoop_body_accepted [OF Some, of rd st] assms Some show ?thesis
    by (auto simp: Let_def split: option.splits if_splits)
qed

text \<open>
  Claim C7 (clamping). Whenever a turn of the loop calls \<open>addData\<close>, the reading is an
  accepted one with five finite fields, the object passed carries each field clamped to
  its range (pulse 20 to 240, saturation 50 to 100, temperature 30 to 45, systolic 50 to
  260, diastolic 30 to 200), and the row appended to the buffer is the reading itself,
  unclamped.
\<close>

theorem forward_clamped_buffer_raw:
  assumes "readLoop_body JSON_parse conv rd t st = (st', fl)"
    and "addData_calls st' \<noteq> addData_calls st"
  shows "\<exists>reading s p ox tc sy d.
           accepted JSON_parse conv t = Some reading \<and> r_session rd = Some s
         \<and> pulse reading = Finite p \<and> oxygenSaturation reading = Finite ox
         \<and> temperatureC reading = Finite tc \<and> systolic reading = Finite sy
         \<and> diastolic reading = Finite d
         \<and> addData_calls st' = addData_calls st @
              [(session_id s,
                \<lparr>pulse = Finite (max 20 (min 240 p)),
                 oxygenSaturation = Finite (max 50 (min 100 ox)),
                 temperatureC = Finite (max 30 (min 45 tc)),
                 systolic = Finite (max 50 (min 260 sy)),
                 diastolic = Finite (max 30 (min 200 d))\<rparr>)]
         \<and> in_range 20 240 (pulse (snd (last (addData_calls st'))))
         \<and> in_range 50 100 (oxygenSaturation (snd (last (addData_calls st'))))
         \<and> in_range 30 45 (temperatureC (snd (last (addData_calls st'))))
         \<and> in_range 50 260 (systolic (snd (last (addData_calls st'))))
         \<and> in_range 30 200 (diastolic (snd (last (addData_calls st'))))
         \<and> realtime st' = push_reading (realtime st) reading
         \<and> last (realtime st') = reading"
proof -
  from readLoop_body_forward [OF assms] obtain reading s where
    acc: "accepted JSON_parse conv t = Some reading" and s: "r_session rd = Some s"
    and calls: "addData_calls st' = addData_calls st @ [(session_id s, payload_of reading)]"
    and buf: "realtime st' = push_reading (realtime st) reading"
    by blast
  from acceptedD [OF acc] obtain v where
    "parseLine JSON_parse conv (iso_now t) v = Inr (Some reading)" by blast
  from parseLine_Some_finite [OF this] obtain p ox tc sy d where
    fin: "pulse reading = Finite p" "oxygenSaturation reading = Finite ox"
      "temperatureC reading = Finite tc" "systolic reading = Finite sy"
      "diastolic reading = Finite d"
    by blast
  note pay = payload_of_finite [OF fin]
  have "last (realtime st') = reading" by (simp add: buf last_push_reading)
  with acc s fin calls buf pay show ?thesis by simp
qed

text \<open>A pulse of 300 is passed to \<open>addData\<close> as 240 and stays 300 in the buffer.\<close>

theorem forward_clamped_buffer_raw_witness:
  "readLoop_body example_JSON_parse example_conv (render_of example_page) (example_tick 5000)
     example_page =
     (example_page\<lparr>isMonitoring := True, startedFromDevice := True,
        realtime := [example_reading ''2025-01-01T00:00:00.000Z''],
        lastSentRef := 5000,
        addData_calls := [(''s-1'',
          \<lparr>pulse = Finite 240, oxygenSaturation = Finite 97, temperatureC = Finite 36.5,
           systolic = Finite 120, diastolic = Finite 80\<rparr>)]\<rparr>, Continue)
   \<and> addData_calls (example_page\<lparr>isMonitoring := True, startedFromDevice := True,
        realtime := [example_reading ''2025-01-01T00:00:00.000Z''],
        lastSentRef := 5000,
        addData_calls := [(''s-1'',
          \<lparr>pulse = Finite 240, oxygenSaturation = Finite 97, temperatureC = Finite 36.5,
           systolic = Finite 120, diastolic = Finite 80\<rparr>)]\<rparr>) \<noteq> addData_calls example_page
   \<and> pulse (example_reading ''2025-01-01T00:00:00.000Z'') = Finite 300
   \<and> pulse (last (realtime (fst (readLoop_body example_JSON_parse example_conv
         (render_of example_page) (example_tick 5000) example_page)))) = Finite 300
   \<and> pulse (snd (last (addData_calls (fst (readLoop_body example_JSON_parse example_conv
         (render_of example_page) (example_tick 5000) example_page))))) = Finite 240"
proof -
  let ?st' = "example_page\<lparr>isMonitoring := True, startedFromDevice := True,
        realtime := [example_reading ''2025-01-01T00:00:00.000Z''],
        lastSentRef := 5000,
        addData_calls := [(''s-1'',
          \<lparr>pulse = Finite 240, oxygenSaturation = Finite 97, temperatureC = Finite 36.5,
           systolic = Finite 120, diastolic = Finite 80\<rparr>)]\<rparr>"
  have body: "readLoop_body example_JSON_parse example_conv (render_of example_page)
      (example_tick 5000) example_page = (?st', Continue)"
    unfolding readLoop_body_accepted [OF accepted_example_tick]
    by (simp add: render_of_def example_page_def example_tick_def push_reading_def
          slice_last_def payload_of_def clamp_def example_reading_def)
  have neq: "addData_calls ?st' \<noteq> addData_calls example_page"
    by (simp add: example_page_def)
  from forward_clamped_buffer_raw [OF body neq]
  have "last (realtime ?st') = example_reading ''2025-01-01T00:00:00.000Z''"
    by (simp add: accepted_example_tick)
  then show ?thesis
    using body neq by (simp add: example_reading_def)
qed


lemma readLoop_body_lastSent:
  assumes "readLoop_body JSON_parse conv rd t st = (st', fl)"
    and "addData_calls st' = addData_calls st"
  shows "lastSentRef st' = lastSentRef st"
proof (cases "accepted JSON_parse conv t")
  case None
  from readLoop_body_not_accepted [OF None, of rd st] assms show ?thesis by auto
next
  case (Some reading)
  from readLoop_body_accepted [OF Some, of rd st] assms show ?thesis
    by (auto simp: Let_def split: option.splits if_splits)
qed

lemma readLoop_body_throttled:
  assumes "readLoop_body JSON_parse conv rd t st = (st', fl)"
    and "date_now t - lastSentRef st < 1000 \<or> r_session rd = None"
  shows "addData_calls st' = addData_calls st \<and> lastSentRef st' = lastSentRef st"
proof -
  have "addData_calls st' = addData_calls st"
    using readLoop_body_forward [OF assms(1)] assms(2) by fastforce
  with readLoop_body_lastSent [OF assms(1)] show ?thesis by simp
qed

lemma readLoop_throttled:
  assumes "(\<forall>t \<in> set ticks. date_now t - lastSentRef st < 1000) \<or> r_session rd = None"
  shows "addData_calls (readLoop JSON_parse conv rd ticks st) = addData_calls st
       \<and> lastSentRef (readLoop JSON_parse conv rd ticks st) = lastSentRef st"
  using assms
proof (induction ticks arbitrary: st)
  case Nil
  show ?case by simp
next
  case (Cons t ticks)
  show ?case
  proof (cases "closeLoopRef st")
    case True
    then show ?thesis by simp
  next
    case False
    obtain st1 fl where b: "readLoop_body JSON_parse conv rd t st = (st1, fl)"
      by (cases "readLoop_body JSON_parse conv rd t st") auto
    from Cons.prems have "date_now t - lastSentRef st < 1000 \<or> r_session rd = None"
      by auto
    from readLoop_body_throttled [OF b this]
    have keep: "addData_calls st1 = addData_calls st" "lastSentRef st1 = lastSentRef st"
      by simp_all
    with Cons.prems have "(\<forall>t \<in> set ticks. date_now t - lastSentRef st1 < 1000)
        \<or> r_session rd = None"
      by auto
    from Cons.IH [OF this] keep False b show ?thesis
      by (cases fl) simp_all
  qed
qed

text \<open>
  With no session in the render that started the loop, no run and no turn of the loop
  calls \<open>addData\<close>, whatever the clock and the last-sent value are; an accepted reading
  is still appended to the buffer.
\<close>

lemma no_render_session_no_forward:
  assumes "r_session rd = None"
  shows "addData_calls (readLoop JSON_parse conv rd ticks st) = addData_calls st
       \<and> addData_calls (fst (readLoop_body JSON_parse conv rd t st)) = addData_calls st
       \<and> (\<forall>reading. accepted JSON_parse conv t = Some reading \<longrightarrow>
            readLoop_body JSON_parse conv rd t st =
              (st\<lparr>realtime := push_reading (realtime st) reading\<rparr>, Continue))"
proof -
  have loop: "addData_calls (readLoop JSON_parse conv rd ticks st) = addData_calls st"
    using readLoop_throttled [of ticks st rd JSON_parse conv] assms by simp
  obtain st1 fl where b: "readLoop_body JSON_parse conv rd t st = (st1, fl)"
    by (cases "readLoop_body JSON_parse conv rd t st") auto
  from readLoop_body_throttled [OF b] assms
  have body: "addData_calls (fst (readLoop_body JSON_parse conv rd t st)) = addData_calls st"
    using b by simp
  have acc: "readLoop_body JSON_parse conv rd t st =
      (st\<lparr>realtime := push_reading (realtime st) reading\<rparr>, Continue)"
    if "accepted JSON_parse conv t = Some reading" for reading
    using readLoop_body_accepted [OF that, of rd st] assms by simp
  from loop body acc show ?thesis by blast
qed

text \<open>
  On the clock of the loop: when the first read of a run is an accepted reading handled
  at least 1000 ms after the last-sent value and all reads of the run are handled within
  a window of 200 ms, the run calls \<open>addData\<close> once.
\<close>

lemma one_forward_per_handling_window:
  assumes "r_session rd = Some s" and "\<not> closeLoopRef st"
    and "accepted JSON_parse conv first = Some reading"
    and "\<forall>t \<in> set (first # rest). w \<le> date_now t \<and> date_now t \<le> w + 200"
    and "date_now first - lastSentRef st \<ge> 1000"
  shows "addData_calls (readLoop JSON_parse conv rd (first # rest) st) =
           addData_calls st @ [(session_id s, payload_of reading)]
       \<and> length (addData_calls (readLoop JSON_parse conv rd (first # rest) st)) =
           length (addData_calls st) + 1
       \<and> lastSentRef (readLoop JSON_parse conv rd (first # rest) st) = date_now first
       \<and> (\<forall>t0 st0. addData_calls (fst (readLoop_body JSON_parse conv rd t0 st0)) \<noteq> addData_calls st0
            \<longrightarrow> date_now t0 - lastSentRef st0 \<ge> 1000
              \<and> lastSentRef (fst (readLoop_body JSON_parse conv rd t0 st0)) = date_now t0)
       \<and> (\<forall>t0 st0. date_now t0 - lastSentRef st0 < 1000
            \<longrightarrow> addData_calls (fst (readLoop_body JSON_parse conv rd t0 st0)) = addData_calls st0
              \<and> lastSentRef (fst (readLoop_body JSON_parse conv rd t0 st0)) = lastSentRef st0)"
proof -
  define st1 where "st1 = fst (readLoop_body JSON_parse conv rd first st)"
  have b: "readLoop_body JSON_parse conv rd first st = (st1, Continue)"
    and calls1: "addData_calls st1 = addData_calls st @ [(session_id s, payload_of reading)]"
    and sent1: "lastSentRef st1 = date_now first"
    using readLoop_body_accepted [OF assms(3), of rd st] assms(1,5)
    by (simp_all add: st1_def Let_def)
  have "\<forall>t \<in> set rest. date_now t - lastSentRef st1 < 1000"
  proof
    fix t assume "t \<in> set rest"
    with assms(4) have "date_now t \<le> w + 200" "w \<le> date_now first" by auto
    with sent1 show "date_now t - lastSentRef st1 < 1000" by simp
  qed
  then have quiet: "addData_calls (readLoop JSON_parse conv rd rest st1) = addData_calls st1"
    "lastSentRef (readLoop JSON_parse conv rd rest st1) = lastSentRef st1"
    using readLoop_throttled [of rest st1 rd JSON_parse conv] by simp_all
  have run: "readLoop JSON_parse conv rd (first # rest) st = readLoop JSON_parse conv rd rest st1"
    using assms(2) b by simp
  have fwd: "date_now t0 - lastSentRef st0 \<ge> 1000
      \<and> lastSentRef (fst (readLoop_body JSON_parse conv rd t0 st0)) = date_now t0"
    if "addData_calls (fst (readLoop_body JSON_parse conv rd t0 st0)) \<noteq> addData_calls st0"
    for t0 st0
  proof -
    obtain st' fl where b0: "readLoop_body JSON_parse conv rd t0 st0 = (st', fl)"
      by (cases "readLoop_body JSON_parse conv rd t0 st0") auto
    with that have "addData_calls st' \<noteq> addData_calls st0" by simp
    from readLoop_body_forward [OF b0 this] b0 show ?thesis by auto
  qed
  have held: "addData_calls (fst (readLoop_body JSON_parse conv rd t0 st0)) = addData_calls st0
      \<and> lastSentRef (fst (readLoop_body JSON_parse conv rd t0 st0)) = lastSentRef st0"
    if "date_now t0 - lastSentRef st0 < 1000" for t0 st0
  proof -
    obtain st' fl where b0: "readLoop_body JSON_parse conv rd t0 st0 = (st', fl)"
      by (cases "readLoop_body JSON_parse conv rd t0 st0") auto
    from readLoop_body_throttled [OF b0] that b0 show ?thesis by simp
  qed
  from run quiet calls1 sent1 fwd held show ?thesis by simp
qed










text \<open>
  What the loop does with the two flags on an accepted reading: it sets both when the
  render that started it had a session and was not monitoring, and leaves both otherwise.
\<close>

lemma readLoop_body_autostart:
  assumes "accepted JSON_parse conv t = Some reading"
  shows "isMonitoring (fst (readLoop_body JSON_parse conv rd t st)) =
           (if r_session rd \<noteq> None \<and> \<not> r_isMonitoring rd then True else isMonitoring st)
       \<and> startedFromDevice (fst (readLoop_body JSON_parse conv rd t st)) =
           (if r_session rd \<noteq> None \<and> \<not> r_isMonitoring rd then True
            else startedFromDevice st)"
  using readLoop_body_accepted [OF assms, of rd st]
  by (auto simp: Let_def split: option.splits)

text \<open>
  Claim C8 (autostart) says that a reading sets the started-from-device marker only when
  the operator has not started monitoring. The loop tests \<open>isMonitoring\<close> of the render
  that started it, not the live flag: on a page with a session and no monitoring, after
  the connection is opened and the operator has pressed start (monitoring active, marker
  cleared), the next accepted reading sets the marker all the same.
\<close>

theorem marker_set_after_operator_start:
  assumes "0 \<le> selectedPortIdx st" and "session st = Some s" and "\<not> isMonitoring st"
    and "handleConnect st (Inr ()) = (st1, Some rd)"
    and "accepted JSON_parse conv t = Some reading"
  shows "rd = render_of st
       \<and> isMonitoring (handleStart st1 (Inr ()))
       \<and> \<not> startedFromDevice (handleStart st1 (Inr ()))
       \<and> startedFromDevice
           (fst (readLoop_body JSON_parse conv rd t (handleStart st1 (Inr ()))))"
proof -
  from assms(1,4) have st1: "st1 = st\<lparr>err := None, io := True, closeLoopRef := False\<rparr>"
    and rd: "rd = render_of st"
    by (simp_all add: handleConnect_def)
  from st1 assms(2) have started: "isMonitoring (handleStart st1 (Inr ()))"
    "\<not> startedFromDevice (handleStart st1 (Inr ()))"
    by (simp_all add: handleStart_def)
  from rd assms(2,3) have "r_session rd \<noteq> None \<and> \<not> r_isMonitoring rd"
    by (simp add: render_of_def)
  with readLoop_body_autostart [OF assms(5), of rd "handleStart st1 (Inr ())"]
  have "startedFromDevice
      (fst (readLoop_body JSON_parse conv rd t (handleStart st1 (Inr ()))))"
    by simp
  with rd started show ?thesis by simp
qed

text \<open>Connect, start, one reading.\<close>

theorem marker_set_after_operator_start_witness:
  "0 \<le> selectedPortIdx example_page
   \<and> session example_page = Some \<lparr>session_id = ''s-1'', endedAt = None\<rparr>
   \<and> \<not> isMonitoring example_page
   \<and> handleConnect example_page (Inr ()) =
       (example_page\<lparr>io := True\<rparr>, Some (render_of example_page))
   \<and> accepted example_JSON_parse example_conv (example_tick 5000) =
       Some (example_reading ''2025-01-01T00:00:00.000Z'')
   \<and> isMonitoring (handleStart (example_page\<lparr>io := True\<rparr>) (Inr ()))
   \<and> \<not> startedFromDevice (handleStart (example_page\<lparr>io := True\<rparr>) (Inr ()))
   \<and> startedFromDevice (fst (readLoop_body example_JSON_parse example_conv
        (render_of example_page) (example_tick 5000)
        (handleStart (example_page\<lparr>io := True\<rparr>) (Inr ()))))"
proof -
  have a: "0 \<le> selectedPortIdx example_page"
    "session example_page = Some \<lparr>session_id = ''s-1'', endedAt = None\<rparr>"
    "\<not> isMonitoring example_page"
    by (simp_all add: example_page_def)
  have c: "handleConnect example_page (Inr ()) =
      (example_page\<lparr>io := True\<rparr>, Some (render_of example_page))"
    by (simp add: handleConnect_def example_page_def)
  note r = marker_set_after_operator_start [OF a c accepted_example_tick [of 5000]]
  from r a c accepted_example_tick [of 5000] show ?thesis by simp
qed

text \<open>With no handler in between, the two phases are \<open>handleConnect\<close>.\<close>

lemma handleConnect_phases:
  "handleConnect st opened =
     (case handleConnect_begin st of
        (st1, None) \<Rightarrow> (st1, None)
      | (st1, Some rd) \<Rightarrow> handleConnect_opened rd opened st1)"
  by (simp add: handleConnect_def handleConnect_begin_def handleConnect_opened_def
        split: sum.splits)

text \<open>
  Claim C10 (no forward without a session) says that the loop never calls \<open>addData\<close>
  while no session exists. The loop tests \<open>session\<close> of the render that started it, not
  the live state (the defect of claim C8): when the page is reset while \<open>openPort\<close> is
  pending, the session of the page is gone by the time the loop starts, and the next
  accepted reading, 1000 ms or more after the last-sent value, is appended to the buffer
  and also forwarded to the session of the old render.
\<close>

theorem forward_after_reset_without_session:
  assumes "0 \<le> selectedPortIdx st" and "session st = Some s"
    and "\<not> isMonitoring st" and "\<not> io st"
    and "handleConnect_begin st = (st1, Some rd)"
    and "handleConnect_opened rd (Inr ()) (handleReset st1) = (st2, started)"
    and "accepted JSON_parse conv t = Some reading"
    and "date_now t - lastSentRef st \<ge> 1000"
  shows "started = Some (render_of st)
       \<and> session (handleReset st1) = None \<and> session st2 = None
       \<and> addData_calls (fst (readLoop_body JSON_parse conv rd t st2)) =
           addData_calls st @ [(session_id s, payload_of reading)]
       \<and> realtime (fst (readLoop_body JSON_parse conv rd t st2)) = [reading]
       \<and> session (fst (readLoop_body JSON_parse conv rd t st2)) = None"
proof -
  from assms(1,5) have st1: "st1 = st\<lparr>err := None\<rparr>" and rd: "rd = render_of st"
    by (simp_all add: handleConnect_begin_def)
  from st1 assms(3,4) have reset: "handleReset st1 =
      st\<lparr>err := None, realtime := [], startedFromDevice := False, session := None,
         selectedPortIdx := - 1\<rparr>"
    by (simp add: handleReset_def handleDisconnect_def)
  from assms(6) reset have st2: "st2 = st\<lparr>err := None, realtime := [],
      startedFromDevice := False, session := None, selectedPortIdx := - 1, io := True,
      closeLoopRef := False\<rparr>"
    and started: "started = Some rd"
    by (simp_all add: handleConnect_opened_def)
  from rd assms(2) have rs: "r_session rd = Some s" by (simp add: render_of_def)
  from st2 assms(8) have due: "date_now t - lastSentRef st2 \<ge> 1000" by simp
  from readLoop_body_accepted [OF assms(7), of rd st2] rs due st2
  have "addData_calls (fst (readLoop_body JSON_parse conv rd t st2)) =
        addData_calls st @ [(session_id s, payload_of reading)]"
    "realtime (fst (readLoop_body JSON_parse conv rd t st2)) = [reading]"
    "session (fst (readLoop_body JSON_parse conv rd t st2)) = None"
    by (simp_all add: Let_def push_reading_def slice_last_def)
  with started rd reset st2 show ?thesis by simp
qed

text \<open>Connect, reset before the port is open, one reading.\<close>

theorem forward_after_reset_without_session_witness:
  "0 \<le> selectedPortIdx example_page
   \<and> session example_page = Some \<lparr>session_id = ''s-1'', endedAt = None\<rparr>
   \<and> \<not> isMonitoring example_page \<and> \<not> io example_page
   \<and> handleConnect_begin example_page = (example_page, Some (render_of example_page))
   \<and> handleConnect_opened (render_of example_page) (Inr ()) (handleReset example_page) =
       (example_page\<lparr>session := None, selectedPortIdx := - 1, io := True\<rparr>,
        Some (render_of example_page))
   \<and> accepted example_JSON_parse example_conv (example_tick 5000) =
       Some (example_reading ''2025-01-01T00:00:00.000Z'')
   \<and> date_now (example_tick 5000) - lastSentRef example_page \<ge> 1000
   \<and> session (example_page\<lparr>session := None, selectedPortIdx := - 1, io := True\<rparr>) = None
   \<and> addData_calls (fst (readLoop_body example_JSON_parse example_conv
        (render_of example_page) (example_tick 5000)
        (example_page\<lparr>session := None, selectedPortIdx := - 1, io := True\<rparr>))) =
       [(''s-1'', \<lparr>pulse = Finite 240, oxygenSaturation = Finite 97, temperatureC = Finite 36.5,
                   systolic = Finite 120, diastolic = Finite 80\<rparr>)]"
proof -
  have a: "0 \<le> selectedPortIdx example_page"
    "session example_page = Some \<lparr>session_id = ''s-1'', endedAt = None\<rparr>"
    "\<not> isMonitoring example_page" "\<not> io example_page"
    by (simp_all add: example_page_def)
  have b: "handleConnect_begin example_page = (example_page, Some (render_of example_page))"
    by (simp add: handleConnect_begin_def example_page_def)
  have c: "handleConnect_opened (render_of example_page) (Inr ()) (handleReset example_page) =
       (example_page\<lparr>session := None, selectedPortIdx := - 1, io := True\<rparr>,
        Some (render_of example_page))"
    by (simp add: handleConnect_opened_def handleReset_def handleDisconnect_def example_page_def)
  have d: "date_now (example_tick 5000) - lastSentRef example_page \<ge> 1000"
    by (simp add: example_tick_def example_page_def)
  have p: "payload_of (example_reading ''2025-01-01T00:00:00.000Z'') =
      \<lparr>pulse = Finite 240, oxygenSaturation = Finite 97, temperatureC = Finite 36.5,
       systolic = Finite 120, diastolic = Finite 80\<rparr>"
    by (simp add: payload_of_def example_reading_def clamp_def)
  note r = forward_after_reset_without_session [OF a b c accepted_example_tick [of 5000] d]
  from r p have "addData_calls (fst (readLoop_body example_JSON_parse example_conv
        (render_of example_page) (example_tick 5000)
        (example_page\<lparr>session := None, selectedPortIdx := - 1, io := True\<rparr>))) =
       [(''s-1'', \<lparr>pulse = Finite 240, oxygenSaturation = Finite 97, temperatureC = Finite 36.5,
                   systolic = Finite 120, diastolic = Finite 80\<rparr>)]"
    by (simp add: example_page_def)
  with a b c d accepted_example_tick [of 5000] show ?thesis by simp
qed

end
